theory Spec2Isabelle
  imports Main
begin

section \<open>Python values, exceptions and library operations\<close>

text \<open>
  The notebook \<^verbatim>\<open>week2-Intro-Parsing/DataParsing.ipynb\<close> is a sequence of cells that
  bind global variables. Each data-transforming cell is embedded as a function from the
  variables it reads to the value it leaves in the variable it binds. A Python exception
  is the \<open>Inl\<close> branch of a sum.

  A \<^verbatim>\<open>dict\<close> (and so a \<^verbatim>\<open>defaultdict\<close> and a \<^verbatim>\<open>Counter\<close>) is an association
  list with distinct keys. The list holds the entries in the order of their insertion;
  that is a representation of the mapping and not the order in which Python iterates
  it. The iteration order is the interpreter's: insertion order from Python 3.7 on,
  hash order before, and the notebook's metadata declares Python 3.5.2. Only
  \<^verbatim>\<open>most_common\<close> iterates a dict, and it takes the iteration order as a parameter.
  Strings are \<open>char list\<close> with 8-bit characters, so only the ASCII behaviour of
  \<^verbatim>\<open>int()\<close> and \<^verbatim>\<open>str.split\<close> is covered. The interpreter's configurable cap on the
  number of digits \<^verbatim>\<open>int()\<close> accepts is not modelled.
\<close>

datatype py_exception =
    IndexError
  | ValueError string
  | KeyError string
  | TypeError
  | ConnectionError
  | JSONDecodeError

text \<open>\<^verbatim>\<open>xs[i]\<close> for a literal index \<open>i \<ge> 0\<close>.\<close>

definition py_index :: "'a list \<Rightarrow> nat \<Rightarrow> py_exception + 'a" where
  "py_index xs i = (if i < length xs then Inr (xs ! i) else Inl IndexError)"

text \<open>\<^verbatim>\<open>xs[-1]\<close>.\<close>

definition py_last :: "'a list \<Rightarrow> py_exception + 'a" where
  "py_last xs = (if xs = [] then Inl IndexError else Inr (last xs))"

text \<open>\<^verbatim>\<open>s.split(c)\<close> for a one-character separator: never empty.\<close>

fun split_on :: "char \<Rightarrow> string \<Rightarrow> string list" where
  "split_on c [] = [[]]"
| "split_on c (x # xs) =
     (if x = c then [] # split_on c xs
      else (x # hd (split_on c xs)) # tl (split_on c xs))"

text \<open>
  \<^verbatim>\<open>int(s)\<close> for a string: surrounding whitespace is stripped, then an optional sign,
  then decimal digits, where single underscores may stand between digits. Anything
  else raises \<^verbatim>\<open>ValueError\<close>, whose message quotes the string.
\<close>

definition is_space :: "char \<Rightarrow> bool" where
  "is_space c = (let n = (of_char c :: nat) in (9 \<le> n \<and> n \<le> 13) \<or> n = 32)"

definition strip :: "string \<Rightarrow> string" where
  "strip s = rev (dropWhile is_space (rev (dropWhile is_space s)))"

definition digit_of :: "char \<Rightarrow> int option" where
  "digit_of c = (let n = (of_char c :: nat) in
                 if 48 \<le> n \<and> n \<le> 57 then Some (int n - 48) else None)"

fun int_digits :: "int \<Rightarrow> string \<Rightarrow> int option" where
  "int_digits acc [] = Some acc"
| "int_digits acc [c] =
     (case digit_of c of None \<Rightarrow> None | Some v \<Rightarrow> Some (acc * 10 + v))"
| "int_digits acc (c # d # ds) =
     (if c = CHR ''_''
      then (case digit_of d of None \<Rightarrow> None | Some v \<Rightarrow> int_digits (acc * 10 + v) ds)
      else (case digit_of c of None \<Rightarrow> None | Some v \<Rightarrow> int_digits (acc * 10 + v) (d # ds)))"

definition unsigned_int :: "string \<Rightarrow> int option" where
  "unsigned_int s =
     (case s of [] \<Rightarrow> None
      | c # cs \<Rightarrow> (case digit_of c of None \<Rightarrow> None | Some v \<Rightarrow> int_digits v cs))"

definition py_int :: "string \<Rightarrow> py_exception + int" where
  "py_int s =
     (case strip s of
        [] \<Rightarrow> Inl (ValueError s)
      | c # cs \<Rightarrow>
          (case (if c = CHR ''-'' then map_option uminus (unsigned_int cs)
                 else if c = CHR ''+'' then unsigned_int cs
                 else unsigned_int (c # cs)) of
             None \<Rightarrow> Inl (ValueError s)
           | Some n \<Rightarrow> Inr n))"

subsection \<open>Dictionaries\<close>

text \<open>\<^verbatim>\<open>d[k] = v\<close>: an existing key keeps its place, a new key goes last.\<close>

fun dict_setitem :: "'k \<Rightarrow> 'v \<Rightarrow> ('k \<times> 'v) list \<Rightarrow> ('k \<times> 'v) list" where
  "dict_setitem k v [] = [(k, v)]"
| "dict_setitem k v (p # d) =
     (if fst p = k then (k, v) # d else p # dict_setitem k v d)"

text \<open>\<^verbatim>\<open>d.get(k, 0)\<close>, which is also what a \<^verbatim>\<open>defaultdict(int)\<close> reads at \<open>k\<close>.\<close>

definition dict_get0 :: "('k \<times> int) list \<Rightarrow> 'k \<Rightarrow> int" where
  "dict_get0 d k = (case map_of d k of None \<Rightarrow> 0 | Some v \<Rightarrow> v)"

text \<open>\<^verbatim>\<open>d[k] += n\<close> on a \<^verbatim>\<open>defaultdict(int)\<close>.\<close>

definition defaultdict_iadd :: "'k \<Rightarrow> int \<Rightarrow> ('k \<times> int) list \<Rightarrow> ('k \<times> int) list" where
  "defaultdict_iadd k n d = dict_setitem k (dict_get0 d k + n) d"

section \<open>The CSV cells\<close>

type_synonym incident = "string list"

subsection \<open>Fatalities per year\<close>

text \<open>
  \<^verbatim>\<open>
  fatalities_per_year = defaultdict(int)
  for incident in airplane_data[1:]: # this skips the first header row
      year = int(incident[0].split('/')[-1])
      if incident[11]: # remember: cells CAN be blank in a CSV
          num_fatalities = int(incident[11])
          fatalities_per_year[year] += num_fatalities
  \<close>
  First the expression \<^verbatim>\<open>int(incident[0].split('/')[-1])\<close>, then the body of the
  loop on the accumulator \<open>d\<close>.
\<close>

definition year_of :: "incident \<Rightarrow> py_exception + int" where
  "year_of incident =
     (case py_index incident 0 of Inl e \<Rightarrow> Inl e | Inr date \<Rightarrow>
      case py_last (split_on CHR ''/'' date) of Inl e \<Rightarrow> Inl e | Inr y \<Rightarrow> py_int y)"

definition tally_step :: "incident \<Rightarrow> (int \<times> int) list \<Rightarrow> py_exception + (int \<times> int) list" where
  "tally_step incident d =
     (case year_of incident of Inl e \<Rightarrow> Inl e | Inr year \<Rightarrow>
      case py_index incident 11 of Inl e \<Rightarrow> Inl e | Inr f \<Rightarrow>
        if f \<noteq> [] then
          (case py_int f of Inl e \<Rightarrow> Inl e
           | Inr num_fatalities \<Rightarrow> Inr (defaultdict_iadd year num_fatalities d))
        else Inr d)"

fun tally_loop :: "incident list \<Rightarrow> (int \<times> int) list \<Rightarrow> py_exception + (int \<times> int) list" where
  "tally_loop [] d = Inr d"
| "tally_loop (incident # rest) d =
     (case tally_step incident d of Inl e \<Rightarrow> Inl e | Inr d' \<Rightarrow> tally_loop rest d')"

definition fatalities_per_year :: "incident list \<Rightarrow> py_exception + (int \<times> int) list" where
  "fatalities_per_year airplane_data = tally_loop (drop 1 airplane_data) []"

subsection \<open>Aircraft types\<close>

text \<open>
  \<^verbatim>\<open>Counter(iterable)\<close> counts the elements in the order they come:
  \<^verbatim>\<open>for elem in iterable: self[elem] = self.get(elem, 0) + 1\<close>.
\<close>

fun count_elements :: "'k list \<Rightarrow> ('k \<times> int) list \<Rightarrow> ('k \<times> int) list" where
  "count_elements [] c = c"
| "count_elements (elem # rest) c =
     count_elements rest (dict_setitem elem (dict_get0 c elem + 1) c)"

definition Counter :: "'k list \<Rightarrow> ('k \<times> int) list" where
  "Counter iterable = count_elements iterable []"

text \<open>
  \<^verbatim>\<open>c.most_common(n)\<close> is \<^verbatim>\<open>heapq.nlargest(n, c.items(), key=itemgetter(1))\<close>, which is
  \<^verbatim>\<open>sorted(c.items(), key=itemgetter(1), reverse=True)[:n]\<close>: a stable sort by
  decreasing count of the items in the order \<^verbatim>\<open>c.items()\<close> iterates them. That order
  is the parameter \<open>items\<close>: \<open>items c\<close> lists the entries of \<open>c\<close> as the interpreter
  iterates them (\<open>id\<close> for insertion order).
\<close>

definition most_common ::
  "(('k \<times> int) list \<Rightarrow> ('k \<times> int) list) \<Rightarrow> int \<Rightarrow> ('k \<times> int) list \<Rightarrow> ('k \<times> int) list" where
  "most_common items n c = take (nat n) (sort_key (\<lambda>p. - snd p) (items c))"

text \<open>
  The orders the claim about \<^verbatim>\<open>most_common\<close> speaks of. \<open>first_pos k ks\<close> is the
  position at which \<open>k\<close> is first encountered in \<open>ks\<close>. An item ranks before another
  when its count is higher, or the counts are equal and it comes first: for
  \<open>ranks_before\<close>, its key is first encountered earlier in the input sequence; for
  \<open>ranks_before_in\<close>, the item itself comes earlier in the iteration order.
\<close>

definition first_pos :: "'k \<Rightarrow> 'k list \<Rightarrow> nat" where
  "first_pos k ks = length (takeWhile (\<lambda>x. x \<noteq> k) ks)"

definition ranks_before :: "'k list \<Rightarrow> 'k \<times> int \<Rightarrow> 'k \<times> int \<Rightarrow> bool" where
  "ranks_before ks p q =
     (snd q < snd p \<or> (snd p = snd q \<and> first_pos (fst p) ks < first_pos (fst q) ks))"

definition ranks_before_in :: "('k \<times> int) list \<Rightarrow> 'k \<times> int \<Rightarrow> 'k \<times> int \<Rightarrow> bool" where
  "ranks_before_in its p q =
     (snd q < snd p \<or> (snd p = snd q \<and> first_pos p its < first_pos q its))"

text \<open>The generator \<^verbatim>\<open>x[6] for x in airplane_data[1:]\<close>.\<close>

fun gen_types :: "incident list \<Rightarrow> py_exception + string list" where
  "gen_types [] = Inr []"
| "gen_types (x # xs) =
     (case py_index x 6 of Inl e \<Rightarrow> Inl e
      | Inr k \<Rightarrow> (case gen_types xs of Inl e \<Rightarrow> Inl e | Inr ks \<Rightarrow> Inr (k # ks)))"

definition aircraft_types :: "incident list \<Rightarrow> py_exception + (string \<times> int) list" where
  "aircraft_types airplane_data =
     (case gen_types (drop 1 airplane_data) of Inl e \<Rightarrow> Inl e | Inr ks \<Rightarrow> Inr (Counter ks))"

text \<open>The condition \<^verbatim>\<open>x[11] and int(x[11]) > 0\<close>.\<close>

definition is_fatal :: "incident \<Rightarrow> py_exception + bool" where
  "is_fatal x =
     (case py_index x 11 of Inl e \<Rightarrow> Inl e
      | Inr f \<Rightarrow>
          if f = [] then Inr False
          else (case py_int f of Inl e \<Rightarrow> Inl e | Inr n \<Rightarrow> Inr (n > 0)))"

text \<open>The generator \<^verbatim>\<open>x[6] for x in airplane_data[1:] if x[11] and int(x[11]) > 0\<close>.\<close>

fun gen_fatal_types :: "incident list \<Rightarrow> py_exception + string list" where
  "gen_fatal_types [] = Inr []"
| "gen_fatal_types (x # xs) =
     (case is_fatal x of Inl e \<Rightarrow> Inl e
      | Inr b \<Rightarrow>
          if b then
            (case py_index x 6 of Inl e \<Rightarrow> Inl e
             | Inr k \<Rightarrow> (case gen_fatal_types xs of Inl e \<Rightarrow> Inl e | Inr ks \<Rightarrow> Inr (k # ks)))
          else gen_fatal_types xs)"

definition fatal_aircraft_types :: "incident list \<Rightarrow> py_exception + (string \<times> int) list" where
  "fatal_aircraft_types airplane_data =
     (case gen_fatal_types (drop 1 airplane_data) of
        Inl e \<Rightarrow> Inl e | Inr ks \<Rightarrow> Inr (Counter ks))"

subsection \<open>The notebook's global variables\<close>

text \<open>
  The cells as transformers of the notebook's globals. The tally cell first rebinds
  \<^verbatim>\<open>fatalities_per_year\<close> to an empty \<^verbatim>\<open>defaultdict\<close> and then fills it in
  place; the aircraft cell binds each of its two variables to a new \<^verbatim>\<open>Counter\<close>.
  The state an aborted cell leaves behind is not tracked: an exception is the result.
\<close>

record globals =
  v_airplane_data :: "incident list"
  v_fatalities_per_year :: "(int \<times> int) list"
  v_aircraft_types :: "(string \<times> int) list"
  v_fatal_aircraft_types :: "(string \<times> int) list"

definition tabulate_cell :: "globals \<Rightarrow> py_exception + globals" where
  "tabulate_cell g =
     (let g0 = g\<lparr>v_fatalities_per_year := []\<rparr> in
      case tally_loop (drop 1 (v_airplane_data g0)) (v_fatalities_per_year g0) of
        Inl e \<Rightarrow> Inl e
      | Inr d \<Rightarrow> Inr (g0\<lparr>v_fatalities_per_year := d\<rparr>))"

definition aircraft_cell :: "globals \<Rightarrow> py_exception + globals" where
  "aircraft_cell g =
     (case aircraft_types (v_airplane_data g) of
        Inl e \<Rightarrow> Inl e
      | Inr c \<Rightarrow>
          (case fatal_aircraft_types (v_airplane_data g) of
             Inl e \<Rightarrow> Inl e
           | Inr fc \<Rightarrow> Inr (g\<lparr>v_aircraft_types := c, v_fatal_aircraft_types := fc\<rparr>)))"

subsection \<open>Valid incident records\<close>

text \<open>
  The input contract of the CSV cells: a data row has at least 12 fields, a date whose
  last \<open>/\<close>-separated part is an integer, and a fatality field that is empty or a
  non-negative integer. \<open>int_value\<close> reads the integer a field stands for.
\<close>

definition int_value :: "string \<Rightarrow> int" where
  "int_value s = (case py_int s of Inl e \<Rightarrow> 0 | Inr n \<Rightarrow> n)"

definition valid_record :: "incident \<Rightarrow> bool" where
  "valid_record r =
     (12 \<le> length r \<and>
      (case year_of r of Inl e \<Rightarrow> False | Inr y \<Rightarrow> True) \<and>
      (r ! 11 = [] \<or> (case py_int (r ! 11) of Inl e \<Rightarrow> False | Inr n \<Rightarrow> 0 \<le> n)))"

text \<open>Rows for examples: date, aircraft type and fatalities at positions 0, 6 and 11.\<close>

definition mk_incident :: "string \<Rightarrow> string \<Rightarrow> string \<Rightarrow> incident" where
  "mk_incident date ty fat = [date, [], [], [], [], [], ty, [], [], [], [], fat]"

definition header :: incident where
  "header = mk_incident ''Date'' ''Type'' ''Fatalities''"

definition example_globals ::
  "(int \<times> int) list \<Rightarrow> (string \<times> int) list \<Rightarrow> (string \<times> int) list \<Rightarrow> globals" where
  "example_globals f a fa =
     \<lparr>v_airplane_data = [header, mk_incident ''1/1/1920'' ''Fokker'' ''3''],
      v_fatalities_per_year = f, v_aircraft_types = a, v_fatal_aircraft_types = fa\<rparr>"

section \<open>The JSON cells\<close>

text \<open>
  \<^verbatim>\<open>json.loads\<close> and \<^verbatim>\<open>r.json()\<close> return Python values built from dicts, lists,
  strings, numbers, booleans and \<^verbatim>\<open>None\<close>. Numbers are integers here.
\<close>

datatype json =
    JNull
  | JBool bool
  | JNum int
  | JStr string
  | JArr "json list"
  | JObj "(string \<times> json) list"

text \<open>\<^verbatim>\<open>v[k]\<close> for a string key \<open>k\<close>: only a dict can be subscripted by a string.\<close>

fun py_getitem :: "json \<Rightarrow> string \<Rightarrow> py_exception + json" where
  "py_getitem (JObj kvs) k =
     (case map_of kvs k of None \<Rightarrow> Inl (KeyError k) | Some v \<Rightarrow> Inr v)"
| "py_getitem _ k = Inl TypeError"

text \<open>\<^verbatim>\<open>for x in v\<close>: a list gives its items, a dict its keys, a string its characters.\<close>

fun py_iter :: "json \<Rightarrow> py_exception + json list" where
  "py_iter (JArr xs) = Inr xs"
| "py_iter (JObj kvs) = Inr (map (\<lambda>kv. JStr (fst kv)) kvs)"
| "py_iter (JStr s) = Inr (map (\<lambda>c. JStr [c]) s)"
| "py_iter _ = Inl TypeError"

text \<open>\<^verbatim>\<open>s + v\<close> for a string \<open>s\<close>: \<open>v\<close> must be a string too.\<close>

fun str_add :: "string \<Rightarrow> json \<Rightarrow> py_exception + string" where
  "str_add s (JStr t) = Inr (s @ t)"
| "str_add s _ = Inl TypeError"

subsection \<open>Getting more data\<close>

text \<open>
  \<^verbatim>\<open>
  data_sets = [reddit_json]
  before = reddit_json['data']['after']
  for x in range(10):
      r = requests.get('https://reddit.com/r/all/.json?count=100&before=' + before,
                       headers=headers)
      data_sets.append(r.json())
      before = data_sets[-1]['data']['after']
  \<close>
  The network is a parameter: \<open>get i url\<close> is what \<^verbatim>\<open>requests.get\<close> does at the
  \<open>i\<close>-th request of the loop (from 0) for \<open>url\<close>, with the constant headers: it
  raises, or it returns a response. \<^verbatim>\<open>requests.get\<close> does not raise on a non-success
  status, and the cell never reads the status. \<open>json_body\<close> is what \<^verbatim>\<open>r.json()\<close>
  returns, \<open>None\<close> when the body is not JSON and \<^verbatim>\<open>r.json()\<close> raises.

  The loop mutates \<^verbatim>\<open>data_sets\<close> in place, so the variables survive an exception:
  the result of the loop is their final state and the exception raised, if any.
  \<open>requested\<close> logs the URLs requested.
\<close>

record response =
  status_code :: nat
  json_body :: "json option"

type_synonym http = "nat \<Rightarrow> string \<Rightarrow> py_exception + response"

record fetch_state =
  v_data_sets :: "json list"
  v_before :: json
  requested :: "string list"

definition url_prefix :: string where
  "url_prefix = ''https://reddit.com/r/all/.json?count=100&before=''"

definition fetch_step :: "http \<Rightarrow> fetch_state \<Rightarrow> fetch_state \<times> py_exception option" where
  "fetch_step get s =
     (case str_add url_prefix (v_before s) of
        Inl e \<Rightarrow> (s, Some e)
      | Inr url \<Rightarrow>
          let s1 = s\<lparr>requested := requested s @ [url]\<rparr> in
          (case get (length (requested s)) url of
             Inl e \<Rightarrow> (s1, Some e)
           | Inr r \<Rightarrow>
               (case json_body r of
                  None \<Rightarrow> (s1, Some JSONDecodeError)
                | Some page \<Rightarrow>
                    let s2 = s1\<lparr>v_data_sets := v_data_sets s1 @ [page]\<rparr> in
                    (case py_last (v_data_sets s2) of
                       Inl e \<Rightarrow> (s2, Some e)
                     | Inr p \<Rightarrow>
                         (case py_getitem p ''data'' of
                            Inl e \<Rightarrow> (s2, Some e)
                          | Inr d \<Rightarrow>
                              (case py_getitem d ''after'' of
                                 Inl e \<Rightarrow> (s2, Some e)
                               | Inr a \<Rightarrow> (s2\<lparr>v_before := a\<rparr>, None)))))))"

text \<open>\<^verbatim>\<open>for x in range(n)\<close>; the notebook has \<open>n = 10\<close>.\<close>

fun fetch_loop :: "http \<Rightarrow> nat \<Rightarrow> fetch_state \<Rightarrow> fetch_state \<times> py_exception option" where
  "fetch_loop get 0 s = (s, None)"
| "fetch_loop get (Suc n) s =
     (case fetch_step get s of
        (s', Some e) \<Rightarrow> (s', Some e)
      | (s', None) \<Rightarrow> fetch_loop get n s')"

text \<open>The two assignments before the loop; they raise if the first page has no cursor field.\<close>

definition fetch_init :: "json \<Rightarrow> py_exception + fetch_state" where
  "fetch_init reddit_json =
     (case py_getitem reddit_json ''data'' of
        Inl e \<Rightarrow> Inl e
      | Inr d \<Rightarrow>
          (case py_getitem d ''after'' of
             Inl e \<Rightarrow> Inl e
           | Inr a \<Rightarrow> Inr \<lparr>v_data_sets = [reddit_json], v_before = a, requested = []\<rparr>))"

definition collect :: "http \<Rightarrow> nat \<Rightarrow> json \<Rightarrow> py_exception + fetch_state \<times> py_exception option" where
  "collect get n reddit_json =
     (case fetch_init reddit_json of
        Inl e \<Rightarrow> Inl e
      | Inr s \<Rightarrow> Inr (fetch_loop get n s))"

definition getting_more_data :: "http \<Rightarrow> json \<Rightarrow> py_exception + fetch_state \<times> py_exception option" where
  "getting_more_data get reddit_json = collect get 10 reddit_json"

subsection \<open>Scores\<close>

text \<open>
  \<^verbatim>\<open>
  scores = []
  for y in data_sets:
      dataset_scores = []
      for x in y['data']['children']:
          dataset_scores.append(x['data']['score'])
      scores.append(dataset_scores)
  \<close>
  The inner loop, the iterable of the inner loop, and the outer loop. A Python list
  that is an element of \<^verbatim>\<open>scores\<close> is a \<open>JArr\<close>.
\<close>

fun dataset_scores_loop :: "json list \<Rightarrow> json list \<Rightarrow> py_exception + json list" where
  "dataset_scores_loop [] dataset_scores = Inr dataset_scores"
| "dataset_scores_loop (x # xs) dataset_scores =
     (case py_getitem x ''data'' of
        Inl e \<Rightarrow> Inl e
      | Inr d \<Rightarrow>
          (case py_getitem d ''score'' of
             Inl e \<Rightarrow> Inl e
           | Inr v \<Rightarrow> dataset_scores_loop xs (dataset_scores @ [v])))"

definition children_of :: "json \<Rightarrow> py_exception + json list" where
  "children_of y =
     (case py_getitem y ''data'' of
        Inl e \<Rightarrow> Inl e
      | Inr d \<Rightarrow> (case py_getitem d ''children'' of Inl e \<Rightarrow> Inl e | Inr c \<Rightarrow> py_iter c))"

fun scores_loop :: "json list \<Rightarrow> json list \<Rightarrow> py_exception + json list" where
  "scores_loop [] scores = Inr scores"
| "scores_loop (y # ys) scores =
     (case children_of y of
        Inl e \<Rightarrow> Inl e
      | Inr xs \<Rightarrow>
          (case dataset_scores_loop xs [] of
             Inl e \<Rightarrow> Inl e
           | Inr dataset_scores \<Rightarrow> scores_loop ys (scores @ [JArr dataset_scores])))"

definition scores :: "json list \<Rightarrow> py_exception + json list" where
  "scores data_sets = scores_loop data_sets []"

text \<open>
  The cell goes on with a string literal that is not executed, under the comment
  \<^verbatim>\<open># More concise\<close>:
  \<^verbatim>\<open>
  scores = [x['data']['score']
            for y in data_sets
            for x in y['data']['children']]
  \<close>
\<close>

fun scores_concise :: "json list \<Rightarrow> py_exception + json list" where
  "scores_concise [] = Inr []"
| "scores_concise (y # ys) =
     (case children_of y of
        Inl e \<Rightarrow> Inl e
      | Inr xs \<Rightarrow>
          (case dataset_scores_loop xs [] of
             Inl e \<Rightarrow> Inl e
           | Inr vs \<Rightarrow>
               (case scores_concise ys of Inl e \<Rightarrow> Inl e | Inr rest \<Rightarrow> Inr (vs @ rest))))"

text \<open>Pages and responses for examples.\<close>

definition mk_post :: "int \<Rightarrow> json" where
  "mk_post n = JObj [(''kind'', JStr ''t3''), (''data'', JObj [(''score'', JNum n)])]"

definition mk_page :: "json list \<Rightarrow> json \<Rightarrow> json" where
  "mk_page children after =
     JObj [(''kind'', JStr ''Listing''),
           (''data'', JObj [(''children'', JArr children), (''after'', after)])]"

definition ok :: "json \<Rightarrow> py_exception + response" where
  "ok body = Inr \<lparr>status_code = 200, json_body = Some body\<rparr>"

text \<open>
  Networks for examples: every page carries a null cursor; every page carries an empty
  cursor; the second request is answered with status 429 and a JSON error body; the
  second request fails to connect.
\<close>

definition null_cursor_pages :: http where
  "null_cursor_pages i url = ok (mk_page [] JNull)"

definition empty_cursor_pages :: http where
  "empty_cursor_pages i url = ok (mk_page [] (JStr []))"

definition error_status_second :: http where
  "error_status_second i url =
     (if i = 0 then ok (mk_page [] (JStr ''c1''))
      else Inr \<lparr>status_code = 429, json_body = Some (JObj [(''error'', JNum 429)])\<rparr>)"

definition no_connection_second :: http where
  "no_connection_second i url =
     (if i = 0 then ok (mk_page [] (JStr ''c1'')) else Inl ConnectionError)"

section \<open>Properties of the CSV cells\<close>

subsection \<open>Evaluation and library facts\<close>

lemmas py_int_eval = py_int_def strip_def is_space_def unsigned_int_def digit_of_def

lemmas cell_eval = fatalities_per_year_def aircraft_types_def fatal_aircraft_types_def
  tally_step_def year_of_def py_index_def py_last_def is_fatal_def Counter_def
  defaultdict_iadd_def dict_get0_def mk_incident_def header_def

lemma split_on_nonempty: "split_on c s \<noteq> []"
  by (induction s) auto

lemma py_int_Inl: "py_int s = Inl e \<Longrightarrow> e = ValueError s"
  by (auto simp: py_int_def split: list.splits option.splits if_splits)

lemma keys_dict_setitem: "fst ` set (dict_setitem k v d) = insert k (fst ` set d)"
  by (induction d) auto

lemma map_of_dict_setitem: "map_of (dict_setitem k v d) k = Some v"
  by (induction d) auto

lemma distinct_dict_setitem:
  "distinct (map fst d) \<Longrightarrow> distinct (map fst (dict_setitem k v d))"
  by (induction d) (auto simp: keys_dict_setitem)

lemma sum_dict_setitem:
  "sum_list (map snd (dict_setitem k v d)) = sum_list (map snd d) - dict_get0 d k + v"
  by (induction d) (auto simp: dict_get0_def)

lemma sum_defaultdict_iadd:
  "sum_list (map snd (defaultdict_iadd k n d)) = sum_list (map snd d) + n"
  by (simp add: defaultdict_iadd_def sum_dict_setitem)

lemma keys_defaultdict_iadd: "fst ` set (defaultdict_iadd k n d) = insert k (fst ` set d)"
  by (simp add: defaultdict_iadd_def keys_dict_setitem)

subsection \<open>One pass of the tally loop\<close>

lemma tally_step_Inr:
  "tally_step r d = Inr d' \<Longrightarrow>
     \<exists>y. year_of r = Inr y \<and> 12 \<le> length r \<and>
       (if r ! 11 = [] then d' = d
        else \<exists>n. py_int (r ! 11) = Inr n \<and> d' = defaultdict_iadd y n d)"
  by (auto simp: tally_step_def py_index_def split: sum.splits if_splits)

lemma tally_step_valid: "valid_record r \<Longrightarrow> \<exists>d'. tally_step r d = Inr d'"
  by (auto simp: tally_step_def valid_record_def py_index_def split: sum.splits)

lemma year_of_Inl:
  "year_of r = Inl e \<Longrightarrow>
     e = IndexError \<or>
     (e = ValueError (last (split_on CHR ''/'' (r ! 0))) \<and>
      py_int (last (split_on CHR ''/'' (r ! 0))) = Inl e)"
  by (auto simp: year_of_def py_index_def py_last_def split: sum.splits if_splits
      dest: py_int_Inl)

lemma tally_step_Inl:
  "tally_step r d = Inl e \<Longrightarrow>
     e = IndexError \<or>
     (\<exists>s. e = ValueError s \<and> py_int s = Inl e \<and>
        (s = r ! 11 \<or> s = last (split_on CHR ''/'' (r ! 0))))"
  by (auto simp: tally_step_def py_index_def split: sum.splits if_splits
      dest: py_int_Inl year_of_Inl)

lemma tally_step_bad:
  assumes "isl (year_of r) \<or> (\<exists>f. py_index r 11 = Inr f \<and> f \<noteq> [] \<and> isl (py_int f))"
  shows "isl (tally_step r d)"
  using assms by (auto simp: tally_step_def isl_def split: sum.splits)

subsection \<open>The whole loop\<close>

lemma tally_loop_valid: "list_all valid_record rows \<Longrightarrow> \<exists>m. tally_loop rows d = Inr m"
proof (induction rows arbitrary: d)
  case Nil
  then show ?case by simp
next
  case (Cons r rows)
  then obtain d' where "tally_step r d = Inr d'"
    using tally_step_valid by fastforce
  with Cons show ?case by simp
qed

lemma tally_loop_sum:
  "tally_loop rows d = Inr m \<Longrightarrow>
     sum_list (map snd m) =
       sum_list (map snd d) + (\<Sum>r\<leftarrow>filter (\<lambda>r. r ! 11 \<noteq> []) rows. int_value (r ! 11))"
proof (induction rows arbitrary: d)
  case Nil
  then show ?case by simp
next
  case (Cons r rows)
  from Cons.prems obtain d' where step: "tally_step r d = Inr d'"
    and rest: "tally_loop rows d' = Inr m"
    by (auto split: sum.splits)
  from tally_step_Inr [OF step]
  have "sum_list (map snd d') =
          sum_list (map snd d) + (if r ! 11 = [] then 0 else int_value (r ! 11))"
    by (auto simp: sum_defaultdict_iadd int_value_def)
  with Cons.IH [OF rest] show ?case by simp
qed

lemma tally_loop_keys:
  "tally_loop rows d = Inr m \<Longrightarrow>
     fst ` set m = fst ` set d \<union> {y. \<exists>r\<in>set rows. year_of r = Inr y \<and> r ! 11 \<noteq> []}"
proof (induction rows arbitrary: d)
  case Nil
  then show ?case by simp
next
  case (Cons r rows)
  from Cons.prems obtain d' where step: "tally_step r d = Inr d'"
    and rest: "tally_loop rows d' = Inr m"
    by (auto split: sum.splits)
  from tally_step_Inr [OF step] obtain y where y: "year_of r = Inr y"
    and d': "if r ! 11 = [] then d' = d
             else \<exists>n. py_int (r ! 11) = Inr n \<and> d' = defaultdict_iadd y n d"
    by blast
  have "fst ` set d' = fst ` set d \<union> {y. year_of r = Inr y \<and> r ! 11 \<noteq> []}"
  proof (cases "r ! 11 = []")
    case True
    with d' show ?thesis by simp
  next
    case False
    with d' obtain n where "d' = defaultdict_iadd y n d" by auto
    then have "fst ` set d' = insert y (fst ` set d)"
      by (simp add: keys_defaultdict_iadd)
    moreover have "{z. year_of r = Inr z \<and> r ! 11 \<noteq> []} = {y}"
      using y False by auto
    ultimately show ?thesis by simp
  qed
  with Cons.IH [OF rest] show ?case by auto
qed

lemma tally_loop_distinct:
  "tally_loop rows d = Inr m \<Longrightarrow> distinct (map fst d) \<Longrightarrow> distinct (map fst m)"
proof (induction rows arbitrary: d)
  case Nil
  then show ?case by simp
next
  case (Cons r rows)
  from Cons.prems(1) obtain d' where step: "tally_step r d = Inr d'"
    and rest: "tally_loop rows d' = Inr m"
    by (auto split: sum.splits)
  from tally_step_Inr [OF step] Cons.prems(2) have "distinct (map fst d')"
    by (auto simp: defaultdict_iadd_def distinct_dict_setitem split: if_splits)
  with Cons.IH [OF rest] show ?case by simp
qed

lemma tally_loop_bad:
  assumes "r \<in> set rows"
    and "isl (year_of r) \<or> (\<exists>f. py_index r 11 = Inr f \<and> f \<noteq> [] \<and> isl (py_int f))"
  shows "\<exists>e. tally_loop rows d = Inl e \<and>
           (e = IndexError \<or>
            (\<exists>x\<in>set rows. \<exists>s. e = ValueError s \<and> py_int s = Inl e \<and>
               (s = x ! 11 \<or> s = last (split_on CHR ''/'' (x ! 0)))))"
  using assms
proof (induction rows arbitrary: d)
  case Nil
  then show ?case by simp
next
  case (Cons x rows)
  show ?case
  proof (cases "tally_step x d")
    case (Inl e)
    from tally_step_Inl [OF Inl] Inl show ?thesis by auto
  next
    case (Inr d')
    with Cons.prems tally_step_bad [of x d] have "r \<in> set rows"
      by auto
    from Cons.IH [OF this Cons.prems(2), of d'] Inr show ?thesis by auto
  qed
qed

lemma gen_fatal_types_skip:
  "is_fatal r = Inr False \<Longrightarrow> gen_fatal_types (xs @ r # ys) = gen_fatal_types (xs @ ys)"
  by (induction xs) (auto split: sum.splits)

subsection \<open>Claims about the CSV cells\<close>

text \<open>
  Claim C3. When every data row (every row after the header) is a valid incident
  record, the tally cell returns a mapping (each year is a key once), and the values
  of that mapping add up to the sum of the integers in the non-empty fatality fields
  (field 11) of the data rows.
\<close>

theorem tally_values_sum:
  assumes "list_all valid_record (drop 1 airplane_data)"
  shows "\<exists>m. fatalities_per_year airplane_data = Inr m \<and>
            distinct (map fst m) \<and>
            sum_list (map snd m) =
              (\<Sum>r\<leftarrow>filter (\<lambda>r. r ! 11 \<noteq> []) (drop 1 airplane_data). int_value (r ! 11))"
proof -
  from tally_loop_valid [OF assms]
  obtain m where m: "tally_loop (drop 1 airplane_data) [] = Inr m"
    by blast
  from tally_loop_distinct [OF m] have "distinct (map fst m)"
    by simp
  with tally_loop_sum [OF m] m show ?thesis
    by (simp add: fatalities_per_year_def)
qed

theorem tally_values_sum_witness:
  "list_all valid_record
     (drop 1 [header, mk_incident ''1/1/1920'' ''Fokker'' ''3'',
              mk_incident ''5/6/1921'' ''Fokker'' '''',
              mk_incident ''7/8/1920'' ''Junkers'' ''4'']) \<and>
   (\<exists>m. fatalities_per_year
           [header, mk_incident ''1/1/1920'' ''Fokker'' ''3'',
            mk_incident ''5/6/1921'' ''Fokker'' '''',
            mk_incident ''7/8/1920'' ''Junkers'' ''4''] = Inr m \<and>
        distinct (map fst m) \<and> sum_list (map snd m) = 7)"
proof -
  have v: "list_all valid_record
     (drop 1 [header, mk_incident ''1/1/1920'' ''Fokker'' ''3'',
              mk_incident ''5/6/1921'' ''Fokker'' '''',
              mk_incident ''7/8/1920'' ''Junkers'' ''4''])"
    by (simp add: valid_record_def cell_eval py_int_eval)
  from tally_values_sum [OF v] v show ?thesis
    by (simp add: int_value_def mk_incident_def py_int_eval)
qed

text \<open>
  Claim C10. In the mapping the tally cell returns, a year is a key exactly when some
  data row dated in that year has a non-empty fatality field. So a year whose rows all
  have an empty fatality field is not a key at all, rather than a key with value 0.
\<close>

theorem tally_keys_nonempty_only:
  assumes "fatalities_per_year airplane_data = Inr m"
  shows "(y \<in> fst ` set m) =
           (\<exists>r\<in>set (drop 1 airplane_data). year_of r = Inr y \<and> r ! 11 \<noteq> [])"
  using tally_loop_keys [of "drop 1 airplane_data" "[]" m] assms
  by (auto simp: fatalities_per_year_def)

theorem tally_keys_nonempty_only_witness:
  "fatalities_per_year
     [header, mk_incident ''5/6/1921'' ''Fokker'' '''',
      mk_incident ''7/8/1920'' ''Junkers'' ''4''] = Inr [(1920, 4)] \<and>
   (1921 :: int) \<notin> fst ` set [(1920 :: int, 4 :: int)] \<and>
   \<not> (\<exists>r\<in>set (drop 1 [header, mk_incident ''5/6/1921'' ''Fokker'' '''',
                         mk_incident ''7/8/1920'' ''Junkers'' ''4'']).
         year_of r = Inr 1921 \<and> r ! 11 \<noteq> [])"
proof -
  have run: "fatalities_per_year
     [header, mk_incident ''5/6/1921'' ''Fokker'' '''',
      mk_incident ''7/8/1920'' ''Junkers'' ''4''] = Inr [(1920, 4)]"
    by (simp add: cell_eval py_int_eval)
  from tally_keys_nonempty_only [OF run, of 1921] run show ?thesis
    by simp
qed

text \<open>
  Claim C6. Take a data row whose fatality field is exactly \<^verbatim>\<open>"0"\<close>. The tally loop
  adds 0 to the total of that row's year, which makes the year a key whose value is
  its total so far (0 for a new year), so the year is a key of the mapping the tally
  cell returns. The condition of the fatal-only counter is false on that row, and the
  fatal-only counts are those of the input without the row.
\<close>

theorem zero_fatalities_counted_not_fatal:
  assumes "airplane_data = h # xs @ r # ys" and "py_index r 11 = Inr ''0''"
  shows "(\<forall>d. tally_step r d =
            (case year_of r of Inl e \<Rightarrow> Inl e | Inr y \<Rightarrow> Inr (defaultdict_iadd y 0 d))) \<and>
         (\<forall>(d :: (int \<times> int) list) y.
            map_of (defaultdict_iadd y 0 d) y = Some (dict_get0 d y)) \<and>
         (\<forall>m. fatalities_per_year airplane_data = Inr m \<longrightarrow>
            (\<exists>y. year_of r = Inr y \<and> y \<in> fst ` set m)) \<and>
         is_fatal r = Inr False \<and>
         fatal_aircraft_types airplane_data = fatal_aircraft_types (h # xs @ ys)"
proof -
  have zero: "py_int ''0'' = Inr 0"
    by (simp add: py_int_eval)
  have step: "tally_step r d =
      (case year_of r of Inl e \<Rightarrow> Inl e | Inr y \<Rightarrow> Inr (defaultdict_iadd y 0 d))" for d
    using assms(2) zero by (simp add: tally_step_def split: sum.splits)
  have present: "map_of (defaultdict_iadd y 0 d) y = Some (dict_get0 d y)"
    for d :: "(int \<times> int) list" and y
    by (simp add: defaultdict_iadd_def map_of_dict_setitem)
  have nonfatal: "is_fatal r = Inr False"
    using assms(2) zero by (simp add: is_fatal_def)
  have r11: "r ! 11 = ''0''"
    using assms(2) by (simp add: py_index_def split: if_splits)
  have keys: "\<exists>y. year_of r = Inr y \<and> y \<in> fst ` set m"
    if m: "fatalities_per_year airplane_data = Inr m" for m
  proof -
    from m have loop: "tally_loop (xs @ r # ys) [] = Inr m"
      by (simp add: fatalities_per_year_def assms(1))
    have "\<exists>y. year_of r = Inr y"
    proof (cases "year_of r")
      case (Inl e)
      then have "isl (year_of r)" by simp
      then have "\<exists>e. tally_loop (xs @ r # ys) [] = Inl e"
        using tally_loop_bad [of r "xs @ r # ys" "[]"] by auto
      with loop show ?thesis by simp
    next
      case (Inr y)
      then show ?thesis by blast
    qed
    then obtain y where y: "year_of r = Inr y" by blast
    from tally_loop_keys [OF loop] y r11 have "y \<in> fst ` set m"
      by auto
    with y show ?thesis by blast
  qed
  have skip: "fatal_aircraft_types airplane_data = fatal_aircraft_types (h # xs @ ys)"
    by (simp add: fatal_aircraft_types_def assms(1) gen_fatal_types_skip [OF nonfatal])
  show ?thesis
    by (intro conjI allI impI) (rule step present keys nonfatal skip | assumption)+
qed

theorem zero_fatalities_counted_not_fatal_witness:
  "fatalities_per_year
     [header, mk_incident ''1/1/1920'' ''Fokker'' ''3'',
      mk_incident ''5/6/1921'' ''Junkers'' ''0''] = Inr [(1920, 3), (1921, 0)] \<and>
   year_of (mk_incident ''5/6/1921'' ''Junkers'' ''0'') = Inr 1921 \<and>
   is_fatal (mk_incident ''5/6/1921'' ''Junkers'' ''0'') = Inr False \<and>
   fatal_aircraft_types
     [header, mk_incident ''1/1/1920'' ''Fokker'' ''3'',
      mk_incident ''5/6/1921'' ''Junkers'' ''0''] = Inr [(''Fokker'', 1)]"
proof -
  have split: "[header, mk_incident ''1/1/1920'' ''Fokker'' ''3'',
      mk_incident ''5/6/1921'' ''Junkers'' ''0''] =
      header # [mk_incident ''1/1/1920'' ''Fokker'' ''3''] @
        mk_incident ''5/6/1921'' ''Junkers'' ''0'' # []"
    by simp
  have field: "py_index (mk_incident ''5/6/1921'' ''Junkers'' ''0'') 11 = Inr ''0''"
    by (simp add: py_index_def mk_incident_def)
  have run: "fatalities_per_year
     [header, mk_incident ''1/1/1920'' ''Fokker'' ''3'',
      mk_incident ''5/6/1921'' ''Junkers'' ''0''] = Inr [(1920, 3), (1921, 0)]"
    by (simp add: cell_eval py_int_eval)
  have year: "year_of (mk_incident ''5/6/1921'' ''Junkers'' ''0'') = Inr 1921"
    by (simp add: cell_eval py_int_eval)
  have rest: "fatal_aircraft_types [header, mk_incident ''1/1/1920'' ''Fokker'' ''3''] =
      Inr [(''Fokker'', 1)]"
    by (simp add: cell_eval py_int_eval)
  from zero_fatalities_counted_not_fatal [OF split field] run year rest
  show ?thesis by simp
qed

text \<open>
  Claim C8. On an input that is a header row alone, the tally cell and both aircraft
  counters return the empty mapping, and none of them raises.
\<close>

theorem header_only_empty:
  "fatalities_per_year [h] = Inr [] \<and>
   aircraft_types [h] = Inr [] \<and>
   fatal_aircraft_types [h] = Inr []"
  by (simp add: fatalities_per_year_def aircraft_types_def fatal_aircraft_types_def
      Counter_def)

text \<open>
  Claim C9. Running the tally cell, or the aircraft cell, again on the globals its
  first run left gives the same globals; and the mappings a run computes depend on
  \<^verbatim>\<open>airplane_data\<close> alone, not on what the accumulators held before.
\<close>

theorem cells_idempotent:
  "(tabulate_cell g = Inr g1 \<longrightarrow> tabulate_cell g1 = Inr g1) \<and>
   (aircraft_cell g = Inr g2 \<longrightarrow> aircraft_cell g2 = Inr g2) \<and>
   (v_airplane_data g = v_airplane_data g3 \<longrightarrow>
      map_sum id v_fatalities_per_year (tabulate_cell g) =
        map_sum id v_fatalities_per_year (tabulate_cell g3) \<and>
      map_sum id v_aircraft_types (aircraft_cell g) =
        map_sum id v_aircraft_types (aircraft_cell g3) \<and>
      map_sum id v_fatal_aircraft_types (aircraft_cell g) =
        map_sum id v_fatal_aircraft_types (aircraft_cell g3))"
  by (auto simp: tabulate_cell_def aircraft_cell_def Let_def split: sum.splits)

theorem cells_idempotent_witness:
  "tabulate_cell (example_globals [] [] []) = Inr (example_globals [(1920, 3)] [] []) \<and>
   tabulate_cell (example_globals [(1920, 3)] [] []) =
     Inr (example_globals [(1920, 3)] [] []) \<and>
   aircraft_cell (example_globals [] [] []) =
     Inr (example_globals [] [(''Fokker'', 1)] [(''Fokker'', 1)]) \<and>
   aircraft_cell (example_globals [] [(''Fokker'', 1)] [(''Fokker'', 1)]) =
     Inr (example_globals [] [(''Fokker'', 1)] [(''Fokker'', 1)]) \<and>
   v_airplane_data (example_globals [] [] []) =
     v_airplane_data (example_globals [(1, 1)] [(''x'', 2)] []) \<and>
   map_sum id v_fatalities_per_year (tabulate_cell (example_globals [] [] [])) =
     map_sum id v_fatalities_per_year
       (tabulate_cell (example_globals [(1, 1)] [(''x'', 2)] []))"
proof -
  have first: "tabulate_cell (example_globals [] [] []) =
      Inr (example_globals [(1920, 3)] [] [])"
    by (simp add: tabulate_cell_def Let_def example_globals_def cell_eval py_int_eval)
  have second: "aircraft_cell (example_globals [] [] []) =
      Inr (example_globals [] [(''Fokker'', 1)] [(''Fokker'', 1)])"
    by (simp add: aircraft_cell_def example_globals_def cell_eval py_int_eval)
  have same: "v_airplane_data (example_globals [] [] []) =
      v_airplane_data (example_globals [(1, 1)] [(''x'', 2)] [])"
    by (simp add: example_globals_def)
  from cells_idempotent
    [of "example_globals [] [] []" "example_globals [(1920, 3)] [] []"
        "example_globals [] [(''Fokker'', 1)] [(''Fokker'', 1)]"
        "example_globals [(1, 1)] [(''x'', 2)] []"]
    first second same
  show ?thesis by simp
qed

text \<open>
  Claim C5, as the spec states it, fails: a fatality field \<^verbatim>\<open>"-3"\<close> is non-empty and
  not a non-negative integer, yet \<^verbatim>\<open>int\<close> accepts it and the tally cell returns a
  mapping with a negative total instead of failing. And when the cell fails, the error
  is the same value whether the offending record is the first or the second data row,
  and whether the offending field is the date or the count: it names neither.
\<close>

theorem malformed_count_counterexample:
  "fatalities_per_year [header, mk_incident ''1/1/1920'' ''Fokker'' ''-3''] =
     Inr [(1920, - 3)] \<and>
   fatalities_per_year [header, mk_incident ''1/1/1920'' ''Fokker'' ''x''] =
     Inl (ValueError ''x'') \<and>
   fatalities_per_year
     [header, mk_incident ''1/1/1920'' ''Fokker'' ''1'',
      mk_incident ''1/1/1920'' ''Fokker'' ''x''] = Inl (ValueError ''x'') \<and>
   fatalities_per_year [header, mk_incident ''1/1/x'' ''Fokker'' ''1''] =
     Inl (ValueError ''x'')"
  by (simp add: cell_eval py_int_eval)

text \<open>
  Claim C5, amended. If some data row has a date whose last \<open>/\<close>-separated part
  \<^verbatim>\<open>int\<close> rejects, or a non-empty fatality field that \<^verbatim>\<open>int\<close> rejects, the tally
  cell fails, so no malformed row is skipped: it fails with \<^verbatim>\<open>IndexError\<close> (a row is
  too short), or with a \<^verbatim>\<open>ValueError\<close> that carries the rejected text of a date part
  or of a fatality field of some data row, and carries neither the record's index nor
  the field's name. (A fatality field that \<^verbatim>\<open>int\<close> accepts is added as it is.)
\<close>

theorem malformed_record_aborts_tally:
  assumes "r \<in> set (drop 1 airplane_data)"
    and "isl (year_of r) \<or> (\<exists>f. py_index r 11 = Inr f \<and> f \<noteq> [] \<and> isl (py_int f))"
  shows "\<exists>e. fatalities_per_year airplane_data = Inl e \<and>
           (e = IndexError \<or>
            (\<exists>x\<in>set (drop 1 airplane_data). \<exists>s. e = ValueError s \<and> py_int s = Inl e \<and>
               (s = x ! 11 \<or> s = last (split_on CHR ''/'' (x ! 0)))))"
  unfolding fatalities_per_year_def using tally_loop_bad [OF assms] .

theorem malformed_record_aborts_tally_witness:
  "mk_incident ''1/1/1920'' ''Fokker'' ''3 dead'' \<in>
     set (drop 1 [header, mk_incident ''1/1/1919'' ''Fokker'' ''1'',
                  mk_incident ''1/1/1920'' ''Fokker'' ''3 dead'']) \<and>
   py_index (mk_incident ''1/1/1920'' ''Fokker'' ''3 dead'') 11 = Inr ''3 dead'' \<and>
   isl (py_int ''3 dead'') \<and>
   (\<exists>e. fatalities_per_year
           [header, mk_incident ''1/1/1919'' ''Fokker'' ''1'',
            mk_incident ''1/1/1920'' ''Fokker'' ''3 dead''] = Inl e)"
proof -
  have mem: "mk_incident ''1/1/1920'' ''Fokker'' ''3 dead'' \<in>
     set (drop 1 [header, mk_incident ''1/1/1919'' ''Fokker'' ''1'',
                  mk_incident ''1/1/1920'' ''Fokker'' ''3 dead''])"
    by simp
  have field: "py_index (mk_incident ''1/1/1920'' ''Fokker'' ''3 dead'') 11 = Inr ''3 dead''"
    by (simp add: py_index_def mk_incident_def)
  have bad: "isl (py_int ''3 dead'')"
    by (simp add: py_int_eval)
  from field bad
  have hyp: "isl (year_of (mk_incident ''1/1/1920'' ''Fokker'' ''3 dead'')) \<or>
     (\<exists>f. py_index (mk_incident ''1/1/1920'' ''Fokker'' ''3 dead'') 11 = Inr f \<and>
          f \<noteq> [] \<and> isl (py_int f))"
    by auto
  from malformed_record_aborts_tally [OF mem hyp] mem field bad
  show ?thesis by blast
qed

subsection \<open>Counters and the most common items\<close>

lemma count_elements_append:
  "count_elements (xs @ ys) c = count_elements ys (count_elements xs c)"
  by (induction xs arbitrary: c) simp_all

lemma Counter_snoc:
  "Counter (ks @ [k]) = dict_setitem k (dict_get0 (Counter ks) k + 1) (Counter ks)"
  by (simp add: Counter_def count_elements_append)

lemma map_fst_dict_setitem:
  "map fst (dict_setitem k v d) =
     (if k \<in> fst ` set d then map fst d else map fst d @ [k])"
  by (induction d) auto

lemma keys_Counter: "set (map fst (Counter ks)) = set ks \<and> distinct (map fst (Counter ks))"
proof (induction ks rule: rev_induct)
  case Nil
  show ?case by (simp add: Counter_def)
next
  case (snoc k ks)
  then show ?case
    by (auto simp: Counter_snoc map_fst_dict_setitem)
qed

lemma first_pos_append:
  "a \<in> set ks \<Longrightarrow> first_pos a (ks @ ys) = first_pos a ks"
  by (simp add: first_pos_def)

lemma first_pos_less: "a \<in> set ks \<Longrightarrow> first_pos a ks < length ks"
  unfolding first_pos_def
  by (induction ks) auto

lemma first_pos_new: "a \<notin> set ks \<Longrightarrow> first_pos a (ks @ [a]) = length ks"
  unfolding first_pos_def
  by (induction ks) auto

lemma keys_Counter_first_seen:
  "sorted_wrt (\<lambda>a b. first_pos a ks < first_pos b ks) (map fst (Counter ks))"
proof (induction ks rule: rev_induct)
  case Nil
  show ?case by (simp add: Counter_def)
next
  case (snoc k ks)
  have keys: "fst ` set (Counter ks) = set ks"
    using keys_Counter [of ks] by simp
  have old: "sorted_wrt (\<lambda>a b. first_pos a (ks @ [k]) < first_pos b (ks @ [k]))
      (map fst (Counter ks))"
  proof (rule sorted_wrt_mono_rel [OF _ snoc.IH])
    fix x y
    assume "x \<in> set (map fst (Counter ks))" and "y \<in> set (map fst (Counter ks))"
      and "first_pos x ks < first_pos y ks"
    with keys show "first_pos x (ks @ [k]) < first_pos y (ks @ [k])"
      by (simp add: first_pos_append)
  qed
  show ?case
  proof (cases "k \<in> set ks")
    case True
    then have "map fst (Counter (ks @ [k])) = map fst (Counter ks)"
      by (simp add: Counter_snoc map_fst_dict_setitem keys)
    with old show ?thesis by simp
  next
    case False
    then have new: "map fst (Counter (ks @ [k])) = map fst (Counter ks) @ [k]"
      by (simp add: Counter_snoc map_fst_dict_setitem keys)
    have "first_pos a (ks @ [k]) < first_pos k (ks @ [k])" if "a \<in> set ks" for a
      using that False by (simp add: first_pos_new first_pos_append first_pos_less)
    with keys have "\<forall>a\<in>set (map fst (Counter ks)).
        first_pos a (ks @ [k]) < first_pos k (ks @ [k])"
      by simp
    with old show ?thesis
      unfolding new sorted_wrt_append by simp
  qed
qed

lemma map_of_dict_setitem_other:
  "k' \<noteq> k \<Longrightarrow> map_of (dict_setitem k v d) k' = map_of d k'"
  by (induction d) auto

lemma Counter_counts:
  "map_of (Counter ks) k = (if k \<in> set ks then Some (int (count_list ks k)) else None)"
proof (induction ks rule: rev_induct)
  case Nil
  show ?case by (simp add: Counter_def)
next
  case (snoc x ks)
  show ?case
  proof (cases "k = x")
    case True
    with snoc show ?thesis
      by (simp add: Counter_snoc map_of_dict_setitem dict_get0_def)
  next
    case False
    with snoc show ?thesis
      by (simp add: Counter_snoc map_of_dict_setitem_other)
  qed
qed

lemma sorted_wrt_filter_nth:
  "sorted_wrt R (filter P xs) \<Longrightarrow> i < j \<Longrightarrow> j < length xs \<Longrightarrow>
     P (xs ! i) \<Longrightarrow> P (xs ! j) \<Longrightarrow> R (xs ! i) (xs ! j)"
proof (induction xs arbitrary: i j)
  case Nil
  then show ?case by simp
next
  case (Cons x xs)
  from Cons.prems(2) obtain j' where j: "j = Suc j'"
    by (cases j) auto
  have tail: "sorted_wrt R (filter P xs)"
    using Cons.prems(1) by (simp split: if_splits)
  show ?case
  proof (cases i)
    case 0
    with Cons.prems j have "P x" and "xs ! j' \<in> set (filter P xs)"
      by auto
    with Cons.prems(1) 0 j show ?thesis by simp
  next
    case (Suc i')
    with Cons.prems j Cons.IH [OF tail, of i' j'] show ?thesis by simp
  qed
qed

lemma sort_key_nth_le:
  assumes "i < j" and "j < length xs"
  shows "f (sort_key f xs ! i) \<le> f (sort_key f xs ! j)"
proof -
  have "sorted (map f (sort_key f xs))"
    by (rule sorted_sort_key)
  from sorted_nth_mono [OF this, of i j] assms show ?thesis
    by simp
qed

lemma sort_key_nth_tie:
  assumes "sorted_wrt R xs" and "i < j" and "j < length xs"
    and "f (sort_key f xs ! i) = f (sort_key f xs ! j)"
  shows "R (sort_key f xs ! i) (sort_key f xs ! j)"
proof -
  let ?P = "\<lambda>y. f y = f (sort_key f xs ! i)"
  have "sorted_wrt R (filter ?P xs)"
    using assms(1) by (rule sorted_wrt_filter)
  then have sorted: "sorted_wrt R (filter ?P (sort_key f xs))"
    by (simp only: sort_key_stable)
  have len: "j < length (sort_key f xs)"
    using assms(3) by simp
  have Pi: "?P (sort_key f xs ! i)"
    by (rule refl)
  have Pj: "?P (sort_key f xs ! j)"
    by (rule assms(4) [symmetric])
  from sorted assms(2) len Pi Pj show ?thesis
    by (rule sorted_wrt_filter_nth)
qed

lemma Counter_first_seen:
  "sorted_wrt (\<lambda>p q. first_pos (fst p) ks < first_pos (fst q) ks) (Counter ks)"
  using keys_Counter_first_seen [of ks] by (simp only: sorted_wrt_map)

lemma sort_key_ranks_nth:
  assumes "i < j" and "j < length (Counter ks)"
  shows "ranks_before ks (sort_key (\<lambda>p. - snd p) (Counter ks) ! i)
           (sort_key (\<lambda>p. - snd p) (Counter ks) ! j)"
proof (cases "snd (sort_key (\<lambda>p. - snd p) (Counter ks) ! i) =
              snd (sort_key (\<lambda>p. - snd p) (Counter ks) ! j)")
  case False
  from sort_key_nth_le [OF assms, of "\<lambda>p. - snd p"] False show ?thesis
    unfolding ranks_before_def by linarith
next
  case True
  then have "- snd (sort_key (\<lambda>p. - snd p) (Counter ks) ! i) =
             - snd (sort_key (\<lambda>p. - snd p) (Counter ks) ! j)"
    by (simp only:)
  from sort_key_nth_tie [OF Counter_first_seen assms, of "\<lambda>p. - snd p", OF this] True
  show ?thesis
    unfolding ranks_before_def by blast
qed

lemma sort_key_ranks:
  "sorted_wrt (ranks_before ks) (sort_key (\<lambda>p. - snd p) (Counter ks))"
  unfolding sorted_wrt_iff_nth_less
proof (intro allI impI)
  fix i j
  assume "i < j" and "j < length (sort_key (\<lambda>p. - snd p) (Counter ks))"
  then have "i < j" and "j < length (Counter ks)"
    by simp_all
  then show "ranks_before ks (sort_key (\<lambda>p. - snd p) (Counter ks) ! i)
               (sort_key (\<lambda>p. - snd p) (Counter ks) ! j)"
    by (rule sort_key_ranks_nth)
qed

lemma gen_types_column:
  "gen_types rows = Inr ks \<Longrightarrow> ks = map (\<lambda>x. x ! 6) rows"
  by (induction rows arbitrary: ks) (auto simp: py_index_def split: sum.splits if_splits)

lemma gen_fatal_types_column:
  "gen_fatal_types rows = Inr ks \<Longrightarrow>
     ks = map (\<lambda>x. x ! 6) (filter (\<lambda>x. is_fatal x = Inr True) rows)"
  by (induction rows arbitrary: ks) (auto simp: py_index_def split: sum.splits if_splits)

lemma aircraft_types_Counter:
  "aircraft_types airplane_data = Inr c \<Longrightarrow>
     c = Counter (map (\<lambda>x. x ! 6) (drop 1 airplane_data))"
  by (auto simp: aircraft_types_def split: sum.splits dest: gen_types_column)

lemma fatal_aircraft_types_Counter:
  "fatal_aircraft_types airplane_data = Inr c \<Longrightarrow>
     c = Counter (map (\<lambda>x. x ! 6)
           (filter (\<lambda>x. is_fatal x = Inr True) (drop 1 airplane_data)))"
  by (auto simp: fatal_aircraft_types_def split: sum.splits dest: gen_fatal_types_column)

lemma distinct_first_pos_sorted:
  "distinct xs \<Longrightarrow> sorted_wrt (\<lambda>p q. first_pos p xs < first_pos q xs) xs"
proof (induction xs rule: rev_induct)
  case Nil
  show ?case by simp
next
  case (snoc x xs)
  then have dist: "distinct xs" and new: "x \<notin> set xs"
    by simp_all
  have old: "sorted_wrt (\<lambda>p q. first_pos p (xs @ [x]) < first_pos q (xs @ [x])) xs"
  proof (rule sorted_wrt_mono_rel [OF _ snoc.IH [OF dist]])
    fix p q
    assume "p \<in> set xs" and "q \<in> set xs" and "first_pos p xs < first_pos q xs"
    then show "first_pos p (xs @ [x]) < first_pos q (xs @ [x])"
      by (simp add: first_pos_append)
  qed
  have "first_pos p (xs @ [x]) < first_pos x (xs @ [x])" if "p \<in> set xs" for p
    using that new by (simp add: first_pos_new first_pos_append first_pos_less)
  with old show ?case
    unfolding sorted_wrt_append by simp
qed

lemma sort_key_ranks_in_nth:
  assumes "distinct its" and "i < j" and "j < length its"
  shows "ranks_before_in its (sort_key (\<lambda>p. - snd p) its ! i)
           (sort_key (\<lambda>p. - snd p) its ! j)"
proof (cases "snd (sort_key (\<lambda>p. - snd p) its ! i) =
              snd (sort_key (\<lambda>p. - snd p) its ! j)")
  case False
  from sort_key_nth_le [OF assms(2,3), of "\<lambda>p. - snd p"] False show ?thesis
    unfolding ranks_before_in_def by linarith
next
  case True
  then have "- snd (sort_key (\<lambda>p. - snd p) its ! i) =
             - snd (sort_key (\<lambda>p. - snd p) its ! j)"
    by (simp only:)
  from sort_key_nth_tie
    [OF distinct_first_pos_sorted [OF assms(1)] assms(2,3), of "\<lambda>p. - snd p", OF this] True
  show ?thesis
    unfolding ranks_before_in_def by blast
qed

lemma sort_key_ranks_in:
  assumes "distinct its"
  shows "sorted_wrt (ranks_before_in its) (sort_key (\<lambda>p. - snd p) its)"
  unfolding sorted_wrt_iff_nth_less
proof (intro allI impI)
  fix i j
  assume "i < j" and "j < length (sort_key (\<lambda>p. - snd p) its)"
  then have "i < j" and "j < length its"
    by simp_all
  with assms show "ranks_before_in its (sort_key (\<lambda>p. - snd p) its ! i)
               (sort_key (\<lambda>p. - snd p) its ! j)"
    by (rule sort_key_ranks_in_nth)
qed

lemma sorted_wrt_take_rest:
  assumes "sorted_wrt R xs" and "p \<in> set (take n xs)" and "q \<in> set xs - set (take n xs)"
  shows "R p q"
proof -
  have "set xs = set (take n xs) \<union> set (drop n xs)"
    using set_append [of "take n xs" "drop n xs"] by simp
  with assms(3) have q: "q \<in> set (drop n xs)"
    by auto
  from assms(1) have "sorted_wrt R (take n xs @ drop n xs)"
    by simp
  with assms(2) q show ?thesis
    unfolding sorted_wrt_append by blast
qed

text \<open>
  Claim C7, as the spec states it, fails. The cell asks for the 10 most common types;
  on an input with one aircraft type it gets one item, not 10. And with two types seen
  once each, \<open>Fokker\<close> first, an interpreter that iterates the \<^verbatim>\<open>Counter\<close> in another
  order than that of insertion (here the reverse, as the hash order of Python 3.5.2
  may be) lists \<open>Junkers\<close> before \<open>Fokker\<close>.
\<close>

theorem most_common_counterexample:
  "aircraft_types [header, mk_incident ''1/1/1920'' ''Fokker'' ''3''] =
     Inr [(''Fokker'', 1)] \<and>
   most_common id 10 [(''Fokker'', 1)] = [(''Fokker'', 1)] \<and>
   aircraft_types
     [header, mk_incident ''1/1/1920'' ''Fokker'' ''3'',
      mk_incident ''5/6/1921'' ''Junkers'' ''0''] = Inr [(''Fokker'', 1), (''Junkers'', 1)] \<and>
   most_common rev 2 [(''Fokker'', 1), (''Junkers'', 1)] =
     [(''Junkers'', 1), (''Fokker'', 1)]"
  by (simp add: cell_eval most_common_def sort_key_def)

text \<open>
  Claim C7, amended. Let \<open>c\<close> be the frequency mapping the aircraft cell builds, over
  all data rows or over the fatal ones, \<open>ks\<close> the sequence of aircraft types it is
  built from, and let \<open>items c\<close> list the entries of \<open>c\<close> once each, in the order the
  interpreter iterates them. Then \<^verbatim>\<open>most_common(n)\<close> returns the smaller of \<open>n\<close> and
  the number of keys many items of \<open>c\<close>, with distinct keys, each with the number of
  its occurrences in \<open>ks\<close>. They are the highest ranked items, in order of rank, and
  every item left out ranks after every item returned, where a higher count ranks
  first and, between equal counts, the item iterated first ranks first. Where the
  interpreter iterates in insertion order (Python 3.7 and later), that is: between
  equal counts, the key first encountered in the input sequence ranks first.
\<close>

theorem most_common_top_by_iteration:
  assumes "aircraft_types airplane_data = Inr c \<and>
             ks = map (\<lambda>x. x ! 6) (drop 1 airplane_data) \<or>
           fatal_aircraft_types airplane_data = Inr c \<and>
             ks = map (\<lambda>x. x ! 6) (filter (\<lambda>x. is_fatal x = Inr True) (drop 1 airplane_data))"
    and "distinct (items c)" and "set (items c) = set c"
  shows "length (most_common items n c) = min (nat n) (card (set ks)) \<and>
         set (most_common items n c) \<subseteq> set c \<and>
         distinct (map fst (most_common items n c)) \<and>
         (\<forall>p\<in>set (most_common items n c). snd p = int (count_list ks (fst p))) \<and>
         sorted_wrt (ranks_before_in (items c)) (most_common items n c) \<and>
         (\<forall>p\<in>set (most_common items n c). \<forall>q\<in>set c - set (most_common items n c).
            ranks_before_in (items c) p q) \<and>
         (items c = c \<longrightarrow>
            sorted_wrt (ranks_before ks) (most_common items n c) \<and>
            (\<forall>p\<in>set (most_common items n c). \<forall>q\<in>set c - set (most_common items n c).
               ranks_before ks p q))"
proof -
  let ?L = "sort_key (\<lambda>p :: string \<times> int. - snd p) (items c)"
  have c: "c = Counter ks"
    using assms(1) aircraft_types_Counter fatal_aircraft_types_Counter by blast
  have res: "most_common items n c = take (nat n) ?L"
    by (simp add: most_common_def)
  have keys: "set (map fst c) = set ks" and dist: "distinct (map fst c)"
    using keys_Counter [of ks] unfolding c by blast+
  have dist_c: "distinct c"
    using dist by (simp add: distinct_map)
  have "length (items c) = card (set (items c))"
    using assms(2) by (simp add: distinct_card)
  also have "\<dots> = length c"
    using dist_c by (simp add: assms(3) distinct_card)
  also have "\<dots> = card (set ks)"
    using distinct_card [OF dist] keys by simp
  finally have "length (items c) = card (set ks)" .
  then have len: "length (most_common items n c) = min (nat n) (card (set ks))"
    by (simp add: res min.commute)
  have setL: "set ?L = set c"
    by (simp add: assms(3))
  have sub: "set (most_common items n c) \<subseteq> set c"
    unfolding res using set_take_subset [of "nat n" ?L] setL by simp
  have "inj_on fst (set c)"
    using dist by (simp add: distinct_map)
  then have "distinct (map fst ?L)"
    using assms(2) setL by (simp add: distinct_map)
  then have dist_res: "distinct (map fst (most_common items n c))"
    unfolding res by (simp add: take_map [symmetric])
  have counts: "snd p = int (count_list ks (fst p))"
    if "p \<in> set (most_common items n c)" for p
  proof -
    from that sub have "(fst p, snd p) \<in> set c"
      by auto
    with dist have "map_of c (fst p) = Some (snd p)"
      by simp
    then show ?thesis
      unfolding c by (simp add: Counter_counts split: if_splits)
  qed
  have ranked: "sorted_wrt (ranks_before_in (items c)) ?L"
    using assms(2) by (rule sort_key_ranks_in)
  then have sorted_res: "sorted_wrt (ranks_before_in (items c)) (most_common items n c)"
    unfolding res by simp
  have out: "ranks_before_in (items c) p q"
    if "p \<in> set (most_common items n c)" and "q \<in> set c - set (most_common items n c)"
    for p q
    using sorted_wrt_take_rest [OF ranked, of p "nat n" q] that
    unfolding res setL by simp
  have seen: "sorted_wrt (ranks_before ks) (most_common items n c) \<and>
      (\<forall>p\<in>set (most_common items n c). \<forall>q\<in>set c - set (most_common items n c).
         ranks_before ks p q)"
    if ins: "items c = c"
  proof -
    have first: "sorted_wrt (ranks_before ks) ?L"
      using sort_key_ranks [of ks] by (simp only: ins c [symmetric])
    then have "sorted_wrt (ranks_before ks) (most_common items n c)"
      unfolding res by simp
    moreover have "ranks_before ks p q"
      if "p \<in> set (most_common items n c)" and "q \<in> set c - set (most_common items n c)"
      for p q
      using sorted_wrt_take_rest [OF first, of p "nat n" q] that
      unfolding res setL by simp
    ultimately show ?thesis by blast
  qed
  from len sub dist_res counts sorted_res out seen show ?thesis by blast
qed

theorem most_common_top_by_iteration_witness:
  "aircraft_types
     [header, mk_incident ''1/1/1920'' ''DC-3'' ''3'',
      mk_incident ''5/6/1921'' ''Fokker'' '''',
      mk_incident ''7/8/1921'' ''Junkers'' ''2'',
      mk_incident ''9/9/1922'' ''Junkers'' ''0'',
      mk_incident ''2/3/1923'' ''Fokker'' ''1''] =
     Inr [(''DC-3'', 1), (''Fokker'', 2), (''Junkers'', 2)] \<and>
   most_common id 2 [(''DC-3'', 1), (''Fokker'', 2), (''Junkers'', 2)] =
     [(''Fokker'', 2), (''Junkers'', 2)] \<and>
   (''DC-3'', 1) \<in>
     set [(''DC-3'', 1), (''Fokker'', 2), (''Junkers'', 2 :: int)] -
     set (most_common id 2 [(''DC-3'', 1), (''Fokker'', 2), (''Junkers'', 2)]) \<and>
   ranks_before [''DC-3'', ''Fokker'', ''Junkers'', ''Junkers'', ''Fokker'']
     (''Fokker'', 2) (''Junkers'', 2) \<and>
   ranks_before [''DC-3'', ''Fokker'', ''Junkers'', ''Junkers'', ''Fokker'']
     (''Junkers'', 2) (''DC-3'', 1)"
proof -
  have run: "aircraft_types
     [header, mk_incident ''1/1/1920'' ''DC-3'' ''3'',
      mk_incident ''5/6/1921'' ''Fokker'' '''',
      mk_incident ''7/8/1921'' ''Junkers'' ''2'',
      mk_incident ''9/9/1922'' ''Junkers'' ''0'',
      mk_incident ''2/3/1923'' ''Fokker'' ''1''] =
     Inr [(''DC-3'', 1), (''Fokker'', 2), (''Junkers'', 2)]"
    by (simp add: cell_eval)
  have col: "[''DC-3'', ''Fokker'', ''Junkers'', ''Junkers'', ''Fokker''] =
     map (\<lambda>x. x ! 6)
       (drop 1 [header, mk_incident ''1/1/1920'' ''DC-3'' ''3'',
          mk_incident ''5/6/1921'' ''Fokker'' '''',
          mk_incident ''7/8/1921'' ''Junkers'' ''2'',
          mk_incident ''9/9/1922'' ''Junkers'' ''0'',
          mk_incident ''2/3/1923'' ''Fokker'' ''1''])"
    by (simp add: mk_incident_def)
  have top: "most_common id 2 [(''DC-3'', 1), (''Fokker'', 2), (''Junkers'', 2)] =
      [(''Fokker'', 2), (''Junkers'', 2)]"
    by (simp add: most_common_def sort_key_def)
  have d: "distinct (id [(''DC-3'', 1 :: int), (''Fokker'', 2), (''Junkers'', 2)])"
    by simp
  from most_common_top_by_iteration
    [of _ "[(''DC-3'', 1), (''Fokker'', 2), (''Junkers'', 2)]"
        "[''DC-3'', ''Fokker'', ''Junkers'', ''Junkers'', ''Fokker'']" id 2,
     OF disjI1 [OF conjI [OF run col]] d]
    run
  show ?thesis
    unfolding top by simp
qed

section \<open>Properties of the JSON cells\<close>

subsection \<open>The fetch loop\<close>

lemmas fetch_eval = getting_more_data_def collect_def fetch_init_def fetch_step_def
  py_last_def mk_page_def mk_post_def ok_def url_prefix_def Let_def

lemma fetch_loop_add:
  "fetch_loop get (k + m) s =
     (case fetch_loop get k s of
        (s', Some e) \<Rightarrow> (s', Some e)
      | (s', None) \<Rightarrow> fetch_loop get m s')"
proof (induction k arbitrary: s)
  case 0
  then show ?case by simp
next
  case (Suc k)
  show ?case
  proof (cases "fetch_step get s")
    case (Pair s1 x)
    then show ?thesis using Suc.IH [of s1] by (cases x) simp_all
  qed
qed

lemma fetch_step_lengths:
  assumes "fetch_step get s = (s', None)"
  shows "length (v_data_sets s') = Suc (length (v_data_sets s)) \<and>
         length (requested s') = Suc (length (requested s))"
proof (cases "str_add url_prefix (v_before s)")
  case (Inl e)
  with assms show ?thesis by (simp add: fetch_step_def)
next
  case url: (Inr url)
  show ?thesis
  proof (cases "get (length (requested s)) url")
    case (Inl e)
    with assms url show ?thesis by (simp add: fetch_step_def)
  next
    case r: (Inr r)
    show ?thesis
    proof (cases "json_body r")
      case None
      with assms url r show ?thesis by (simp add: fetch_step_def)
    next
      case page: (Some page)
      show ?thesis
      proof (cases "py_getitem page ''data''")
        case (Inl e)
        with assms url r page show ?thesis by (simp add: fetch_step_def py_last_def)
      next
        case d: (Inr d)
        show ?thesis
        proof (cases "py_getitem d ''after''")
          case (Inl e)
          with assms url r page d show ?thesis by (simp add: fetch_step_def py_last_def)
        next
          case (Inr a)
          with assms url r page d show ?thesis
            by (auto simp: fetch_step_def py_last_def)
        qed
      qed
    qed
  qed
qed

lemma fetch_loop_lengths:
  "fetch_loop get k s = (s', None) \<Longrightarrow>
     length (v_data_sets s') = length (v_data_sets s) + k \<and>
     length (requested s') = length (requested s) + k"
proof (induction k arbitrary: s)
  case 0
  then show ?case by simp
next
  case (Suc k)
  show ?case
  proof (cases "fetch_step get s")
    case (Pair s1 x)
    show ?thesis
    proof (cases x)
      case None
      with Pair Suc.prems have rest: "fetch_loop get k s1 = (s', None)"
        by simp
      from Pair None have step: "fetch_step get s = (s1, None)"
        by simp
      from fetch_step_lengths [OF step] Suc.IH [OF rest] show ?thesis
        by simp
    next
      case (Some e)
      with Pair Suc.prems show ?thesis by simp
    qed
  qed
qed

lemma fetch_loop_stops:
  assumes run: "fetch_loop get k s0 = (s, None)"
    and step: "fetch_step get s = (s', Some e)"
    and less: "k < n"
  shows "fetch_loop get n s0 = (s', Some e)"
proof -
  from less obtain m where n: "n = k + Suc m"
    by (auto simp: less_iff_Suc_add)
  have "fetch_loop get (k + Suc m) s0 = fetch_loop get (Suc m) s"
    by (simp only: fetch_loop_add run prod.case option.case)
  also have "\<dots> = (s', Some e)"
    using step by simp
  finally show ?thesis
    by (simp only: n)
qed

lemma collect_Inr:
  assumes "collect get k reddit_json = Inr (s, x)"
  shows "\<exists>s0. fetch_init reddit_json = Inr s0 \<and> fetch_loop get k s0 = (s, x) \<and>
           length (v_data_sets s0) = 1 \<and> requested s0 = []"
proof (cases "fetch_init reddit_json")
  case (Inl e)
  with assms show ?thesis by (simp add: collect_def)
next
  case (Inr s0)
  then have "length (v_data_sets s0) = 1 \<and> requested s0 = []"
    by (auto simp: fetch_init_def split: sum.splits)
  with Inr assms show ?thesis by (simp add: collect_def)
qed

text \<open>
  Claim C1, as the spec states it, fails. With a first page whose cursor is
  \<^verbatim>\<open>"abc"\<close> and a second page whose cursor is null, the cell does not return two
  pages: building the URL of the next request from the null cursor raises
  \<^verbatim>\<open>TypeError\<close>. And an empty-string cursor does not end the loop: all ten
  requests are issued and eleven pages are collected.
\<close>

theorem null_cursor_counterexample:
  "getting_more_data null_cursor_pages (mk_page [] (JStr ''abc'')) =
     Inr (\<lparr>v_data_sets = [mk_page [] (JStr ''abc''), mk_page [] JNull],
           v_before = JNull,
           requested = [url_prefix @ ''abc'']\<rparr>,
          Some TypeError) \<and>
   getting_more_data empty_cursor_pages (mk_page [] (JStr ''abc'')) =
     Inr (\<lparr>v_data_sets = mk_page [] (JStr ''abc'') # replicate 10 (mk_page [] (JStr [])),
           v_before = JStr [],
           requested = (url_prefix @ ''abc'') # replicate 9 url_prefix\<rparr>,
          None)"
  by (simp add: fetch_eval null_cursor_pages_def empty_cursor_pages_def eval_nat_numeral)

text \<open>
  Claim C1, amended. Suppose \<open>k\<close> further requests succeed and the last page received
  carries a null cursor, before the budget \<open>n\<close> of further requests is used up. Then
  the loop issues no further request and \<^verbatim>\<open>data_sets\<close> holds only the \<open>k + 1\<close>
  pages collected so far (2 when the second page carries the null cursor), but the
  loop ends by raising \<^verbatim>\<open>TypeError\<close>, not by returning.
\<close>

theorem null_cursor_ends_collection:
  assumes "collect get k reddit_json = Inr (s, None)"
    and "v_before s = JNull"
    and "k < n"
  shows "collect get n reddit_json = Inr (s, Some TypeError) \<and>
         length (v_data_sets s) = k + 1 \<and> length (requested s) = k"
proof -
  from collect_Inr [OF assms(1)]
  obtain s0 where init: "fetch_init reddit_json = Inr s0"
    and loop: "fetch_loop get k s0 = (s, None)"
    and len: "length (v_data_sets s0) = 1" and req: "requested s0 = []"
    by blast
  have "fetch_step get s = (s, Some TypeError)"
    using assms(2) by (simp add: fetch_step_def)
  from fetch_loop_stops [OF loop this assms(3)] init
  have "collect get n reddit_json = Inr (s, Some TypeError)"
    by (simp add: collect_def)
  with fetch_loop_lengths [OF loop] len req show ?thesis by simp
qed

theorem null_cursor_ends_collection_witness:
  "collect null_cursor_pages 1 (mk_page [] (JStr ''abc'')) =
     Inr (\<lparr>v_data_sets = [mk_page [] (JStr ''abc''), mk_page [] JNull],
           v_before = JNull,
           requested = [url_prefix @ ''abc'']\<rparr>, None) \<and>
   (1 :: nat) < 10 \<and>
   collect null_cursor_pages 10 (mk_page [] (JStr ''abc'')) =
     Inr (\<lparr>v_data_sets = [mk_page [] (JStr ''abc''), mk_page [] JNull],
           v_before = JNull,
           requested = [url_prefix @ ''abc'']\<rparr>, Some TypeError)"
proof -
  have one: "collect null_cursor_pages 1 (mk_page [] (JStr ''abc'')) =
     Inr (\<lparr>v_data_sets = [mk_page [] (JStr ''abc''), mk_page [] JNull],
           v_before = JNull,
           requested = [url_prefix @ ''abc'']\<rparr>, None)"
    by (simp add: fetch_eval null_cursor_pages_def)
  have less: "(1 :: nat) < 10" by simp
  from null_cursor_ends_collection [OF one _ less] one show ?thesis
    by simp
qed

text \<open>
  Claim C2, as the spec states it, fails. Let the request for the third page (index 2)
  be answered with a non-success status and a JSON body that is not a page. The body is
  appended to \<^verbatim>\<open>data_sets\<close> before the loop aborts, so the dataset left behind is not
  the two pages collected before the failure, and the exception is a \<^verbatim>\<open>KeyError\<close>
  that carries the missing key, not a page index.
\<close>

theorem error_status_counterexample:
  "getting_more_data error_status_second (mk_page [] (JStr ''c0'')) =
   Inr (\<lparr>v_data_sets = [mk_page [] (JStr ''c0''), mk_page [] (JStr ''c1''),
                         JObj [(''error'', JNum 429)]],
         v_before = JStr ''c1'',
         requested = [url_prefix @ ''c0'', url_prefix @ ''c1'']\<rparr>,
        Some (KeyError ''data''))"
  by (simp add: fetch_eval error_status_second_def eval_nat_numeral)

text \<open>
  Claim C2, amended. Suppose \<open>k\<close> further requests succeed and the next request, within
  the budget \<open>n\<close>, fails: \<^verbatim>\<open>requests.get\<close> raises, or the body is not JSON. Then the
  loop aborts at once with that exception (the one \<^verbatim>\<open>requests.get\<close> raised, or
  \<^verbatim>\<open>JSONDecodeError\<close>), which carries neither a page index nor a dataset. The failed
  request is the last one issued, so nothing is retried, and \<^verbatim>\<open>data_sets\<close> is left
  holding exactly the \<open>k + 1\<close> pages collected before the failure, whose number is the
  zero-based index of the failed page.
\<close>

theorem request_failure_aborts_collection:
  assumes "collect get k reddit_json = Inr (s, None)"
    and "k < n"
    and "v_before s = JStr c"
    and "get k (url_prefix @ c) = Inl e \<or>
         (\<exists>r. get k (url_prefix @ c) = Inr r \<and> json_body r = None \<and> e = JSONDecodeError)"
  shows "collect get n reddit_json =
           Inr (s\<lparr>requested := requested s @ [url_prefix @ c]\<rparr>, Some e) \<and>
         length (v_data_sets s) = k + 1 \<and> length (requested s) = k"
proof -
  from collect_Inr [OF assms(1)]
  obtain s0 where init: "fetch_init reddit_json = Inr s0"
    and loop: "fetch_loop get k s0 = (s, None)"
    and len: "length (v_data_sets s0) = 1" and req: "requested s0 = []"
    by blast
  from fetch_loop_lengths [OF loop] len req
  have lens: "length (v_data_sets s) = k + 1" "length (requested s) = k"
    by simp_all
  have "fetch_step get s = (s\<lparr>requested := requested s @ [url_prefix @ c]\<rparr>, Some e)"
    using assms(3,4) lens(2) by (auto simp: fetch_step_def Let_def)
  from fetch_loop_stops [OF loop this assms(2)] init
  have "collect get n reddit_json =
      Inr (s\<lparr>requested := requested s @ [url_prefix @ c]\<rparr>, Some e)"
    by (simp add: collect_def)
  with lens show ?thesis by simp
qed

theorem request_failure_aborts_collection_witness:
  "collect no_connection_second 1 (mk_page [] (JStr ''c0'')) =
     Inr (\<lparr>v_data_sets = [mk_page [] (JStr ''c0''), mk_page [] (JStr ''c1'')],
           v_before = JStr ''c1'',
           requested = [url_prefix @ ''c0'']\<rparr>, None) \<and>
   (1 :: nat) < 4 \<and>
   no_connection_second 1 (url_prefix @ ''c1'') = Inl ConnectionError \<and>
   collect no_connection_second 4 (mk_page [] (JStr ''c0'')) =
     Inr (\<lparr>v_data_sets = [mk_page [] (JStr ''c0''), mk_page [] (JStr ''c1'')],
           v_before = JStr ''c1'',
           requested = [url_prefix @ ''c0'', url_prefix @ ''c1'']\<rparr>,
          Some ConnectionError)"
proof -
  have one: "collect no_connection_second 1 (mk_page [] (JStr ''c0'')) =
     Inr (\<lparr>v_data_sets = [mk_page [] (JStr ''c0''), mk_page [] (JStr ''c1'')],
           v_before = JStr ''c1'',
           requested = [url_prefix @ ''c0'']\<rparr>, None)"
    by (simp add: fetch_eval no_connection_second_def)
  have less: "(1 :: nat) < 4" by simp
  have fails: "no_connection_second 1 (url_prefix @ ''c1'') = Inl ConnectionError"
    by (simp add: no_connection_second_def)
  from request_failure_aborts_collection
    [OF one less, of "''c1''" ConnectionError] one fails
  show ?thesis by simp
qed

subsection \<open>The scores\<close>

lemma scores_loop_nested:
  "scores_loop ds acc = Inr ss \<Longrightarrow>
     \<exists>vss. ss = acc @ map JArr vss \<and> length vss = length ds \<and>
           scores_concise ds = Inr (concat vss)"
proof (induction ds arbitrary: acc)
  case Nil
  then show ?case by simp
next
  case (Cons y ys)
  from Cons.prems obtain xs vs where ch: "children_of y = Inr xs"
    and inner: "dataset_scores_loop xs [] = Inr vs"
    and rest: "scores_loop ys (acc @ [JArr vs]) = Inr ss"
    by (auto split: sum.splits)
  from Cons.IH [OF rest] obtain vss where "ss = (acc @ [JArr vs]) @ map JArr vss"
    and "length vss = length ys" and "scores_concise ys = Inr (concat vss)"
    by blast
  with ch inner have "ss = acc @ map JArr (vs # vss) \<and> length (vs # vss) = length (y # ys) \<and>
      scores_concise (y # ys) = Inr (concat (vs # vss))"
    by simp
  then show ?case by blast
qed

lemma scores_nested:
  assumes "scores data_sets = Inr ss"
  shows "\<exists>vss. ss = map JArr vss \<and> length vss = length data_sets \<and>
           scores_concise data_sets = Inr (concat vss)"
  using scores_loop_nested [of data_sets "[]" ss] assms by (simp add: scores_def)

lemma dataset_scores_loop_posts:
  "dataset_scores_loop (map mk_post ns) acc = Inr (acc @ map JNum ns)"
  by (induction ns arbitrary: acc) (simp_all add: mk_post_def)

lemma children_of_page: "children_of (mk_page items cursor) = Inr items"
  by (simp add: children_of_def mk_page_def)

lemma scores_loop_pages:
  "scores_loop (map (\<lambda>pg. mk_page (map mk_post (fst pg)) (snd pg)) pages) acc =
     Inr (acc @ map (\<lambda>pg. JArr (map JNum (fst pg))) pages)"
  by (induction pages arbitrary: acc)
    (simp_all add: children_of_page dataset_scores_loop_posts)

lemma scores_pages:
  "scores (map (\<lambda>pg. mk_page (map mk_post (fst pg)) (snd pg)) pages) =
     Inr (map (\<lambda>pg. JArr (map JNum (fst pg))) pages)"
  by (simp add: scores_def scores_loop_pages)

lemma scores_concise_pages:
  "scores_concise (map (\<lambda>pg. mk_page (map mk_post (fst pg)) (snd pg)) pages) =
     Inr (map JNum (concat (map fst pages)))"
  by (induction pages) (simp_all add: children_of_page dataset_scores_loop_posts)

text \<open>
  Claim C4 holds of the comprehension the cell quotes as the more concise form, not of
  the loop the cell runs. On two pages, the first with posts scored 1 and 2 and the
  second with a post scored 3, the loop leaves in \<^verbatim>\<open>scores\<close> one list per page,
  \<^verbatim>\<open>[[1, 2], [3]]\<close>, where the claim and the comprehension have the flat
  \<^verbatim>\<open>[1, 2, 3]\<close>.
\<close>

theorem scores_not_flat:
  "scores [mk_page [mk_post 1, mk_post 2] (JStr ''abc''), mk_page [mk_post 3] JNull] =
     Inr [JArr [JNum 1, JNum 2], JArr [JNum 3]] \<and>
   scores_concise
     [mk_page [mk_post 1, mk_post 2] (JStr ''abc''), mk_page [mk_post 3] JNull] =
     Inr [JNum 1, JNum 2, JNum 3]"
  by (simp add: scores_def children_of_def mk_page_def mk_post_def)

end
